theory Spec2Isabelle
  imports Complex_Main
begin

section \<open>The rate limiter of \<^verbatim>\<open>tg_bot/modules/helper_funcs/decorators.py\<close>\<close>

text \<open>
  The module keeps one dictionary \<^verbatim>\<open>message_history\<close> from user ids to lists of
  timestamps. \<^verbatim>\<open>rate_limit(messages_per_window, window_seconds)\<close> returns a decorator;
  the decorator wraps a callback \<^verbatim>\<open>func\<close> in \<^verbatim>\<open>wrapper(update, context)\<close>, which is itself
  wrapped in \<^verbatim>\<open>lru_cache(maxsize=1024)\<close>.

  Mutation of the dictionary is explicit state passing, the clock reading
  \<^verbatim>\<open>time.time()\<close> is a parameter, and every exception is a value. Timestamps are real
  numbers. The callback is external: the model records whether it was called and
  whether it returned or raised.
\<close>

subsection \<open>Data\<close>

type_synonym user_id = int
type_synonym timestamp = real

text \<open>A context object is known by its identity only.\<close>
type_synonym callback_context = nat

text \<open>Of an update the wrapper reads \<^verbatim>\<open>update.effective_user.id\<close>; \<^verbatim>\<open>effective_user\<close> is
  \<^verbatim>\<open>None\<close> for updates that carry no user.\<close>
record update =
  update_id :: int
  effective_user :: "user_id option"

text \<open>\<^verbatim>\<open>message_history\<close>, the module-level dictionary.\<close>
type_synonym history = "user_id \<rightharpoonup> timestamp list"

text \<open>\<open>InvalidConfiguration\<close> is the error the specification names; no statement of the
  source raises it. \<open>AttributeError\<close> is what reading \<^verbatim>\<open>.id\<close> of \<^verbatim>\<open>None\<close> raises, and
  \<open>CallbackRaised\<close> stands for any exception leaving \<^verbatim>\<open>func\<close>.\<close>
datatype error = InvalidConfiguration | AttributeError | CallbackRaised

text \<open>The values a call can hand back. The wrapper only ever produces \<open>PyNone\<close>.\<close>
datatype pyval = PyNone | PyBool bool

text \<open>\<open>True\<close> when \<^verbatim>\<open>func(update, context)\<close> returns, \<open>False\<close> when it raises. Its return
  value is discarded by the wrapper.\<close>
type_synonym callback = "update \<Rightarrow> callback_context \<Rightarrow> bool"

text \<open>The two arguments of \<^verbatim>\<open>rate_limit\<close>, as captured by the closures it returns.\<close>
record policy =
  messages_per_window :: int
  window_seconds :: int

text \<open>What one call of the wrapper does: the value returned or the exception raised,
  whether \<^verbatim>\<open>func\<close> was called, and \<^verbatim>\<open>message_history\<close> afterwards.\<close>
record result =
  returned :: "error + pyval"
  called :: bool
  hist :: history

text \<open>The store of \<^verbatim>\<open>lru_cache\<close>: argument pairs with the value cached for them, the most
  recently used first.\<close>
type_synonym lru = "((update \<times> callback_context) \<times> pyval) list"

subsection \<open>Operations\<close>

text \<open>\<^verbatim>\<open>rate_limit\<close> checks nothing and builds the closure.\<close>
definition rate_limit :: "int \<Rightarrow> int \<Rightarrow> error + policy" where
  "rate_limit mpw ws = Inr \<lparr>messages_per_window = mpw, window_seconds = ws\<rparr>"

text \<open>\<^verbatim>\<open>message_history[user_id]\<close> once the missing key has been given \<^verbatim>\<open>[]\<close>.\<close>
definition entries :: "history \<Rightarrow> user_id \<Rightarrow> timestamp list" where
  "entries h uid = (case h uid of None \<Rightarrow> [] | Some ts \<Rightarrow> ts)"

text \<open>\<^verbatim>\<open>[t for t in message_history[user_id] if current_time - t <= window_seconds]\<close>\<close>
definition prune :: "policy \<Rightarrow> timestamp \<Rightarrow> timestamp list \<Rightarrow> timestamp list" where
  "prune p current_time ts =
     filter (\<lambda>t. current_time - t \<le> real_of_int (window_seconds p)) ts"

text \<open>The body of \<^verbatim>\<open>wrapper\<close>, below the \<^verbatim>\<open>lru_cache\<close> decoration. The specification
  calls the part from the membership test to the append \<^verbatim>\<open>try_acquire(identity, now)\<close>.\<close>
definition wrapper_body ::
  "policy \<Rightarrow> callback \<Rightarrow> update \<Rightarrow> callback_context \<Rightarrow> timestamp \<Rightarrow> history \<Rightarrow> result" where
  "wrapper_body p func u c current_time h =
     (case effective_user u of
        None \<Rightarrow> \<lparr>returned = Inl AttributeError, called = False, hist = h\<rparr>
      | Some uid \<Rightarrow>
          (let h1 = (if h uid = None then h(uid \<mapsto> []) else h);
               h2 = h1(uid \<mapsto> prune p current_time (entries h1 uid))
           in if messages_per_window p \<le> int (length (entries h2 uid))
              then \<lparr>returned = Inr PyNone, called = False, hist = h2\<rparr>
              else \<lparr>returned = (if func u c then Inr PyNone else Inl CallbackRaised),
                    called = True,
                    hist = h2(uid \<mapsto> entries h2 uid @ [current_time])\<rparr>))"

definition maxsize :: nat where
  "maxsize = 1024"

text \<open>\<^verbatim>\<open>wrapper\<close> as decorated: a hit hands back the cached value and runs nothing; a miss
  runs the body, and caches its value unless it raised, evicting the least recently used
  pair when the cache is full. On a hit the clock is not read.\<close>
definition wrapper ::
  "policy \<Rightarrow> callback \<Rightarrow> update \<Rightarrow> callback_context \<Rightarrow> timestamp \<Rightarrow> history \<Rightarrow> lru
     \<Rightarrow> result \<times> lru" where
  "wrapper p func u c current_time h cache =
     (case map_of cache (u, c) of
        Some v \<Rightarrow>
          (\<lparr>returned = Inr v, called = False, hist = h\<rparr>,
           ((u, c), v) # filter (\<lambda>e. fst e \<noteq> (u, c)) cache)
      | None \<Rightarrow>
          (let r = wrapper_body p func u c current_time h
           in case returned r of
                Inl e \<Rightarrow> (r, cache)
              | Inr v \<Rightarrow>
                  (r, ((u, c), v) # (if maxsize \<le> length cache then butlast cache else cache))))"

text \<open>A decorated function is the policy and the callback its wrapper closes over. The
  decorated functions of the program are numbered; each has an \<^verbatim>\<open>lru_cache\<close> of its
  own, and all of them read and write the one \<^verbatim>\<open>message_history\<close>.\<close>
type_synonym decorated = "policy \<times> callback"

text \<open>A call names the decorated function that is called, its two arguments, and the
  clock reading the call sees.\<close>
type_synonym call = "nat \<times> update \<times> callback_context \<times> timestamp"

text \<open>A sequence of calls of the decorated functions, in the order they happen. The
  value is the log of admissions (decorated function, user id and recorded timestamp of
  every call that appended a timestamp and called \<^verbatim>\<open>func\<close>), with \<^verbatim>\<open>message_history\<close>
  and the caches as the last call leaves them.\<close>
fun run ::
  "(nat \<Rightarrow> decorated) \<Rightarrow> call list \<Rightarrow> history \<Rightarrow> (nat \<Rightarrow> lru)
     \<Rightarrow> (nat \<times> user_id \<times> timestamp) list \<times> history \<times> (nat \<Rightarrow> lru)" where
  "run fs [] h caches = ([], h, caches)"
| "run fs ((k, u, c, current_time) # cs) h caches =
     (case fs k of
        (p, func) \<Rightarrow>
          (case wrapper p func u c current_time h (caches k) of
             (r, cache') \<Rightarrow>
               (case run fs cs (hist r) (caches(k := cache')) of
                  (adm, final) \<Rightarrow>
                    (case effective_user u of
                       None \<Rightarrow> (adm, final)
                     | Some uid \<Rightarrow>
                         if called r then ((k, uid, current_time) # adm, final)
                         else (adm, final)))))"

definition admissions ::
  "(nat \<Rightarrow> decorated) \<Rightarrow> call list \<Rightarrow> history \<Rightarrow> (nat \<Rightarrow> lru)
     \<Rightarrow> (nat \<times> user_id \<times> timestamp) list" where
  "admissions fs cs h caches = fst (run fs cs h caches)"

definition final_history ::
  "(nat \<Rightarrow> decorated) \<Rightarrow> call list \<Rightarrow> history \<Rightarrow> (nat \<Rightarrow> lru) \<Rightarrow> history" where
  "final_history fs cs h caches = fst (snd (run fs cs h caches))"

definition final_caches ::
  "(nat \<Rightarrow> decorated) \<Rightarrow> call list \<Rightarrow> history \<Rightarrow> (nat \<Rightarrow> lru) \<Rightarrow> nat \<Rightarrow> lru" where
  "final_caches fs cs h caches = snd (snd (run fs cs h caches))"

text \<open>The clock reading of a call, the window of the decorated function it calls, and
  the clock readings of a sequence of calls.\<close>
definition reading :: "call \<Rightarrow> timestamp" where
  "reading x = snd (snd (snd x))"

definition window_of :: "(nat \<Rightarrow> decorated) \<Rightarrow> nat \<Rightarrow> int" where
  "window_of fs k = window_seconds (fst (fs k))"

definition readings :: "call list \<Rightarrow> timestamp list" where
  "readings cs = map reading cs"

text \<open>How many admissions of \<open>uid\<close> through the decorated function \<open>k\<close> in a log carry a
  timestamp in \<open>(t - window, t]\<close>.\<close>
definition in_window ::
  "policy \<Rightarrow> nat \<Rightarrow> user_id \<Rightarrow> timestamp \<Rightarrow> (nat \<times> user_id \<times> timestamp) list \<Rightarrow> nat" where
  "in_window p k uid t adm =
     length (filter (\<lambda>e. fst e = k \<and> fst (snd e) = uid
        \<and> t - real_of_int (window_seconds p) < snd (snd e) \<and> snd (snd e) \<le> t) adm)"

text \<open>How many timestamps of a list are later than \<open>t - window\<close>.\<close>
definition newer :: "policy \<Rightarrow> timestamp \<Rightarrow> timestamp list \<Rightarrow> nat" where
  "newer p t ts = length (filter (\<lambda>x. t - real_of_int (window_seconds p) < x) ts)"

subsection \<open>Inputs for the examples\<close>

text \<open>A callback that returns, an update of a given user, and the policy of the
  specification's scenarios (three messages in sixty seconds).\<close>
definition returns :: callback where
  "returns u c = True"

definition upd :: "int \<Rightarrow> user_id \<Rightarrow> update" where
  "upd n uid = \<lparr>update_id = n, effective_user = Some uid\<rparr>"

definition three_per_minute :: policy where
  "three_per_minute = \<lparr>messages_per_window = 3, window_seconds = 60\<rparr>"

text \<open>A program with one decorated function, and one with two: the first limited to
  three calls in sixty seconds, the second to a hundred calls in one second.\<close>
definition alone :: "policy \<Rightarrow> callback \<Rightarrow> nat \<Rightarrow> decorated" where
  "alone p func k = (p, func)"

definition hundred_per_second :: policy where
  "hundred_per_second = \<lparr>messages_per_window = 100, window_seconds = 1\<rparr>"

definition two_limiters :: "nat \<Rightarrow> decorated" where
  "two_limiters k = (if k = 0 then (three_per_minute, returns) else (hundred_per_second, returns))"

definition no_caches :: "nat \<Rightarrow> lru" where
  "no_caches k = []"

section \<open>Properties\<close>

subsection \<open>Pruning\<close>

lemma prune_set: "set (prune p now ts) = {t \<in> set ts. now - real_of_int (window_seconds p) \<le> t}"
  by (auto simp: prune_def)

lemma prune_idem: "prune p now (prune p now ts) = prune p now ts"
  by (simp add: prune_def)

lemma prune_length: "length (prune p now ts) \<le> length ts"
  by (simp add: prune_def)

lemma entries_upd: "entries (h(i \<mapsto> ts)) j = (if j = i then ts else entries h j)"
  by (simp add: entries_def)

subsection \<open>One call\<close>

lemma wrapper_body_Some:
  assumes "effective_user u = Some i"
  shows "wrapper_body p f u c now h =
     (if messages_per_window p \<le> int (length (prune p now (entries h i)))
      then \<lparr>returned = Inr PyNone, called = False, hist = h(i \<mapsto> prune p now (entries h i))\<rparr>
      else \<lparr>returned = (if f u c then Inr PyNone else Inl CallbackRaised), called = True,
            hist = h(i \<mapsto> prune p now (entries h i) @ [now])\<rparr>)"
  using assms by (auto simp: wrapper_body_def Let_def entries_def)

lemma wrapper_body_None:
  "effective_user u = None \<Longrightarrow>
   wrapper_body p f u c now h = \<lparr>returned = Inl AttributeError, called = False, hist = h\<rparr>"
  by (simp add: wrapper_body_def)

lemma wrapper_hit:
  "map_of cache (u, c) = Some v \<Longrightarrow>
   wrapper p f u c now h cache =
     (\<lparr>returned = Inr v, called = False, hist = h\<rparr>,
      ((u, c), v) # filter (\<lambda>e. fst e \<noteq> (u, c)) cache)"
  by (simp add: wrapper_def)

lemma wrapper_miss:
  "map_of cache (u, c) = None \<Longrightarrow>
   fst (wrapper p f u c now h cache) = wrapper_body p f u c now h"
  by (simp add: wrapper_def Let_def split: sum.splits)

text \<open>The three things a call can do to the history: nothing (a cache hit, or an
  update without a user), prune only (a denial), prune and append (an admission).\<close>
lemma wrapper_effect:
  assumes "wrapper p f u c now h cache = (r, cache')"
  obtains
    (untouched) "\<not> called r" "hist r = h"
  | (denied) i where "effective_user u = Some i" "\<not> called r"
      "hist r = h(i \<mapsto> prune p now (entries h i))"
      "messages_per_window p \<le> int (length (prune p now (entries h i)))"
  | (admitted) i where "effective_user u = Some i" "called r"
      "hist r = h(i \<mapsto> prune p now (entries h i) @ [now])"
      "int (length (prune p now (entries h i))) < messages_per_window p"
proof (cases "map_of cache (u, c)")
  case (Some v)
  with assms have "r = \<lparr>returned = Inr v, called = False, hist = h\<rparr>"
    by (simp add: wrapper_hit)
  then show ?thesis using untouched by simp
next
  case None
  with assms have r: "r = wrapper_body p f u c now h"
    using wrapper_miss [of cache u c p f now h] by simp
  show ?thesis
  proof (cases "effective_user u")
    case None
    then show ?thesis using r untouched by (simp add: wrapper_body_None)
  next
    case (Some i)
    show ?thesis
    proof (cases "messages_per_window p \<le> int (length (prune p now (entries h i)))")
      case True
      then show ?thesis using r Some denied [of i] by (simp add: wrapper_body_Some)
    next
      case False
      then show ?thesis using r Some admitted [of i] by (simp add: wrapper_body_Some)
    qed
  qed
qed

subsection \<open>Sequences of calls\<close>

lemma admissions_Nil: "admissions fs [] h caches = []"
  by (simp add: admissions_def)

lemma admissions_Cons:
  assumes "fs k = (p, f)" and "wrapper p f u c now h (caches k) = (r, cache')"
  shows "admissions fs ((k, u, c, now) # cs) h caches =
     (case effective_user u of
        None \<Rightarrow> admissions fs cs (hist r) (caches(k := cache'))
      | Some i \<Rightarrow> if called r then (k, i, now) # admissions fs cs (hist r) (caches(k := cache'))
                  else admissions fs cs (hist r) (caches(k := cache')))"
  using assms by (simp add: admissions_def split: prod.splits option.splits)

lemma final_history_Nil: "final_history fs [] h caches = h"
  by (simp add: final_history_def)

lemma final_history_Cons:
  assumes "fs k = (p, f)" and "wrapper p f u c now h (caches k) = (r, cache')"
  shows "final_history fs ((k, u, c, now) # cs) h caches
       = final_history fs cs (hist r) (caches(k := cache'))"
  using assms by (simp add: final_history_def split: prod.splits option.splits)

lemma final_caches_Nil: "final_caches fs [] h caches = caches"
  by (simp add: final_caches_def)

lemma final_caches_Cons:
  assumes "fs k = (p, f)" and "wrapper p f u c now h (caches k) = (r, cache')"
  shows "final_caches fs ((k, u, c, now) # cs) h caches
       = final_caches fs cs (hist r) (caches(k := cache'))"
  using assms by (simp add: final_caches_def split: prod.splits option.splits)

text \<open>Pruning with a window that is no shorter removes nothing later than \<open>t - window\<close>.\<close>
lemma newer_prune:
  assumes "now \<le> t" and "window_seconds p \<le> window_seconds q"
  shows "newer p t (prune q now ts) = newer p t ts"
proof -
  from assms(2) have "real_of_int (window_seconds p) \<le> real_of_int (window_seconds q)"
    by simp
  with assms(1) have "filter (\<lambda>x. t - real_of_int (window_seconds p) < x) (prune q now ts)
           = filter (\<lambda>x. t - real_of_int (window_seconds p) < x) ts"
    unfolding prune_def filter_filter by (intro filter_cong) auto
  then show ?thesis by (simp add: newer_def)
qed

lemma newer_le_length: "newer p t ts \<le> length ts"
  by (simp add: newer_def)

lemma newer_le_prune: "now \<le> t \<Longrightarrow> newer p t ts \<le> length (prune p now ts)"
  using newer_prune [of now t p p ts] newer_le_length [of p t "prune p now ts"] by simp

lemma newer_snoc:
  "newer p t (ts @ [now]) = newer p t ts + (if t - real_of_int (window_seconds p) < now then 1 else 0)"
  by (simp add: newer_def)

lemma in_window_Cons:
  "in_window p k i t ((j, i0, a) # adm) =
     (if j = k \<and> i0 = i \<and> t - real_of_int (window_seconds p) < a \<and> a \<le> t then 1 else 0)
       + in_window p k i t adm"
  by (simp add: in_window_def)

lemma in_window_Nil: "in_window p k i t [] = 0"
  by (simp add: in_window_def)

lemma in_window_pos:
  assumes "0 < in_window p k i t adm"
  shows "\<exists>a. (k, i, a) \<in> set adm \<and> a \<le> t"
proof -
  from assms have "filter (\<lambda>e. fst e = k \<and> fst (snd e) = i
        \<and> t - real_of_int (window_seconds p) < snd (snd e) \<and> snd (snd e) \<le> t) adm \<noteq> []"
    by (simp add: in_window_def)
  then obtain e where e: "e \<in> set adm" "fst e = k" "fst (snd e) = i" "snd (snd e) \<le> t"
    by (auto simp: filter_empty_conv)
  have "(k, i, snd (snd e)) \<in> set adm"
    using e(1) by (simp add: e(2) [symmetric] e(3) [symmetric])
  with e(4) show ?thesis by blast
qed

text \<open>Every logged timestamp is the clock reading of one of the calls.\<close>
lemma admissions_times:
  "(j, i, a) \<in> set (admissions fs cs h caches) \<Longrightarrow> a \<in> set (readings cs)"
proof (induction cs arbitrary: h caches)
  case Nil
  then show ?case by (simp add: admissions_Nil)
next
  case (Cons x cs)
  obtain k u c now where x: "x = (k, u, c, now)" by (cases x)
  obtain q g where q: "fs k = (q, g)" by (cases "fs k")
  obtain r cache' where w: "wrapper q g u c now h (caches k) = (r, cache')"
    by (cases "wrapper q g u c now h (caches k)")
  from Cons.prems
  have "a = now \<or> (j, i, a) \<in> set (admissions fs cs (hist r) (caches(k := cache')))"
    by (auto simp: x admissions_Cons [where fs = fs and caches = caches, OF q w] split: option.splits if_splits)
  then show ?case
  proof
    assume "a = now"
    then show ?thesis by (simp add: x readings_def reading_def)
  next
    assume "(j, i, a) \<in> set (admissions fs cs (hist r) (caches(k := cache')))"
    then have "a \<in> set (readings cs)" by (rule Cons.IH)
    then show ?thesis by (simp add: x readings_def)
  qed
qed

text \<open>The invariant behind the window bound of the decorated function \<open>k\<close>, as long as
  no decorated function with a shorter window is called: what the history of \<open>i\<close>
  still holds later than \<open>t - window\<close>, together with what \<open>k\<close> will admit in
  \<open>(t - window, t]\<close>, fits the capacity of \<open>k\<close> as soon as \<open>k\<close> admits anything there.\<close>
lemma admissions_bound:
  assumes "sorted (readings cs)"
    and "\<forall>x \<in> set cs. window_of fs k \<le> window_of fs (fst x)"
    and "p = fst (fs k)"
  shows "in_window p k i t (admissions fs cs h caches) = 0 \<or>
         int (newer p t (entries h i) + in_window p k i t (admissions fs cs h caches))
           \<le> messages_per_window p"
  using assms(1,2)
proof (induction cs arbitrary: h caches)
  case Nil
  then show ?case by (simp add: in_window_Nil admissions_Nil)
next
  case (Cons x cs)
  obtain j u c now where x: "x = (j, u, c, now)" by (cases x)
  obtain q g where q: "fs j = (q, g)" by (cases "fs j")
  obtain r cache' where w: "wrapper q g u c now h (caches j) = (r, cache')"
    by (cases "wrapper q g u c now h (caches j)")
  let ?rest = "admissions fs cs (hist r) (caches(j := cache'))"
  let ?w = "real_of_int (window_seconds p)"
  from Cons.prems(1) have later: "\<forall>y \<in> set (readings cs). now \<le> y" and srt: "sorted (readings cs)"
    by (auto simp: x readings_def reading_def)
  from Cons.prems(2) have wide: "window_seconds p \<le> window_seconds q"
    and wides: "\<forall>x \<in> set cs. window_of fs k \<le> window_of fs (fst x)"
    by (auto simp: x window_of_def q assms(3))
  have IH: "in_window p k i t ?rest = 0 \<or>
         int (newer p t (entries (hist r) i) + in_window p k i t ?rest) \<le> messages_per_window p"
    using Cons.IH [OF srt wides] .
  have rest_now: "now \<le> t" if "0 < in_window p k i t ?rest"
  proof -
    from in_window_pos [OF that] obtain a where a: "(k, i, a) \<in> set ?rest" "a \<le> t" by blast
    from admissions_times [OF a(1)] later have "now \<le> a" by auto
    with a(2) show ?thesis by simp
  qed
  from w show ?case
  proof (cases rule: wrapper_effect)
    case untouched
    then have "admissions fs (x # cs) h caches = ?rest"
      by (simp add: x admissions_Cons [where fs = fs and caches = caches, OF q w] split: option.splits)
    with IH untouched show ?thesis by simp
  next
    case (denied i0)
    then have run: "admissions fs (x # cs) h caches = ?rest"
      by (simp add: x admissions_Cons [where fs = fs and caches = caches, OF q w])
    show ?thesis
    proof (cases "in_window p k i t ?rest = 0")
      case True
      then show ?thesis by (simp add: run)
    next
      case False
      then have "now \<le> t" using rest_now by simp
      then have "newer p t (entries (hist r) i) = newer p t (entries h i)"
        using denied(3) wide by (simp add: entries_upd newer_prune)
      with IH False show ?thesis by (simp add: run)
    qed
  next
    case (admitted i0)
    then have run: "admissions fs (x # cs) h caches = (j, i0, now) # ?rest"
      by (simp add: x admissions_Cons [where fs = fs and caches = caches, OF q w])
    show ?thesis
    proof (cases "i = i0")
      case False
      then have "in_window p k i t ((j, i0, now) # ?rest) = in_window p k i t ?rest"
        by (simp add: in_window_Cons)
      moreover have "entries (hist r) i = entries h i"
        using False admitted(3) by (simp add: entries_upd)
      ultimately show ?thesis using IH by (simp add: run)
    next
      case True
      have e: "entries (hist r) i = prune q now (entries h i) @ [now]"
        using True admitted(3) by (simp add: entries_upd)
      show ?thesis
      proof (cases "in_window p k i t ?rest = 0")
        case False
        then have nt: "now \<le> t" using rest_now by simp
        from IH False
        have "int (newer p t (entries (hist r) i) + in_window p k i t ?rest) \<le> messages_per_window p"
          by simp
        then have "int (newer p t (entries h i) + (if t - ?w < now then 1 else 0)
            + in_window p k i t ?rest) \<le> messages_per_window p"
          using nt wide by (simp add: e newer_snoc newer_prune)
        moreover have "in_window p k i t ((j, i0, now) # ?rest)
            \<le> (if t - ?w < now then 1 else 0) + in_window p k i t ?rest"
          by (simp add: in_window_Cons)
        ultimately have "int (newer p t (entries h i) + in_window p k i t ((j, i0, now) # ?rest))
            \<le> messages_per_window p"
          by linarith
        then show ?thesis
          unfolding run by blast
      next
        case rest0: True
        show ?thesis
        proof (cases "j = k \<and> t - ?w < now \<and> now \<le> t")
          case False
          then show ?thesis using rest0 True by (auto simp: run in_window_Cons)
        next
          case inw: True
          then have "q = p" using q assms(3) by simp
          from inw have "newer p t (entries h i) \<le> length (prune p now (entries h i))"
            by (simp add: newer_le_prune)
          then have "int (newer p t (entries h i)) + 1 \<le> messages_per_window p"
            using admitted(4) True \<open>q = p\<close> by simp
          then show ?thesis using rest0 True inw by (simp add: run in_window_Cons)
        qed
      qed
    qed
  qed
qed

text \<open>So the docstring's maximum holds for a decorated function as long as every
  decorated function that is called has a window at least as long as its own.\<close>
lemma window_capacity_no_shorter_window:
  assumes "0 \<le> messages_per_window (fst (fs k))"
    and "sorted (readings cs)"
    and "\<forall>x \<in> set cs. window_of fs k \<le> window_of fs (fst x)"
  shows "int (in_window (fst (fs k)) k i t (admissions fs cs h caches))
       \<le> messages_per_window (fst (fs k))"
  using admissions_bound [OF assms(2,3) refl, of i t h caches] assms(1) by auto

subsection \<open>The cache\<close>

lemma not_cached_filter:
  "map_of cache k = None \<Longrightarrow> filter (\<lambda>e. fst e \<noteq> k) cache = cache"
  by (induction cache) (auto split: if_splits)

lemma not_cached_butlast:
  "map_of cache k = None \<Longrightarrow> map_of (butlast cache) k = None"
  by (auto simp: map_of_eq_None_iff dest: in_set_butlastD)

lemma filter_not_cached: "map_of (filter (\<lambda>e. fst e \<noteq> k) cache) k = None"
  by (induction cache) auto

lemma cached_filter_shorter:
  "map_of cache k = Some v \<Longrightarrow> length (filter (\<lambda>e. fst e \<noteq> k) cache) < length cache"
proof -
  assume "map_of cache k = Some v"
  then have "(k, v) \<in> set cache" by (rule map_of_SomeD)
  then show ?thesis by (rule length_filter_less) simp
qed

text \<open>After a call that returned, the pair heads the cache and occurs nowhere else.\<close>
lemma wrapper_caches:
  assumes "wrapper p f u c now h cache = (r, cache')" and "returned r = Inr v"
  shows "\<exists>rest. cache' = ((u, c), v) # rest \<and> map_of rest (u, c) = None"
proof (cases "map_of cache (u, c)")
  case (Some v')
  with assms show ?thesis
    by (auto simp: wrapper_hit filter_not_cached)
next
  case None
  with assms show ?thesis
    by (auto simp: wrapper_def Let_def not_cached_butlast split: sum.splits)
qed

lemma wrapper_cache_size:
  "length cache \<le> maxsize \<Longrightarrow> length (snd (wrapper p f u c now h cache)) \<le> maxsize"
proof (cases "map_of cache (u, c)")
  case (Some v)
  assume "length cache \<le> maxsize"
  with cached_filter_shorter [OF Some] show ?thesis
    by (simp add: wrapper_hit [OF Some])
next
  case None
  assume "length cache \<le> maxsize"
  with None show ?thesis
    by (auto simp: wrapper_def Let_def maxsize_def split: sum.splits)
qed

subsection \<open>Calls within one window\<close>

text \<open>While every call lies in \<open>[L, L + window]\<close> for the window of the decorated function
  it calls, pruning removes nothing from \<open>L\<close> on, so each admission adds one to what the
  history holds from there.\<close>
lemma one_window_count:
  assumes "\<forall>x \<in> set cs. L \<le> reading x \<and> reading x \<le> L + real_of_int (window_of fs (fst x))"
  shows "length (filter (\<lambda>x. L \<le> x) (entries (final_history fs cs h caches) i))
       = length (filter (\<lambda>x. L \<le> x) (entries h i))
         + length (filter (\<lambda>e. fst (snd e) = i) (admissions fs cs h caches))"
  using assms
proof (induction cs arbitrary: h caches)
  case Nil
  then show ?case by (simp add: final_history_Nil admissions_Nil)
next
  case (Cons x cs)
  obtain k u c now where x: "x = (k, u, c, now)" by (cases x)
  obtain q g where q: "fs k = (q, g)" by (cases "fs k")
  obtain r cache' where w: "wrapper q g u c now h (caches k) = (r, cache')"
    by (cases "wrapper q g u c now h (caches k)")
  let ?caches = "caches(k := cache')"
  from Cons.prems have now: "L \<le> now" "now \<le> L + real_of_int (window_seconds q)"
    and rest: "\<forall>x \<in> set cs. L \<le> reading x \<and> reading x \<le> L + real_of_int (window_of fs (fst x))"
    by (auto simp: x reading_def window_of_def q)
  have keep: "filter (\<lambda>x. L \<le> x) (prune q now ts) = filter (\<lambda>x. L \<le> x) ts" for ts
    unfolding prune_def filter_filter using now by (intro filter_cong) auto
  have IH: "length (filter (\<lambda>x. L \<le> x) (entries (final_history fs cs (hist r) ?caches) i))
       = length (filter (\<lambda>x. L \<le> x) (entries (hist r) i))
         + length (filter (\<lambda>e. fst (snd e) = i) (admissions fs cs (hist r) ?caches))"
    by (rule Cons.IH [OF rest])
  have fin: "final_history fs (x # cs) h caches = final_history fs cs (hist r) ?caches"
    by (simp add: x final_history_Cons [where fs = fs and caches = caches, OF q w])
  from w show ?case
  proof (cases rule: wrapper_effect)
    case untouched
    then have "admissions fs (x # cs) h caches = admissions fs cs (hist r) ?caches"
      by (simp add: x admissions_Cons [where fs = fs and caches = caches, OF q w] split: option.splits)
    with IH untouched(2) fin show ?thesis by simp
  next
    case (denied i0)
    have "filter (\<lambda>x. L \<le> x) (entries (hist r) i) = filter (\<lambda>x. L \<le> x) (entries h i)"
      using denied(3) by (simp add: entries_upd keep)
    moreover have "admissions fs (x # cs) h caches = admissions fs cs (hist r) ?caches"
      using denied(1,2) by (simp add: x admissions_Cons [where fs = fs and caches = caches, OF q w])
    ultimately show ?thesis using IH fin by simp
  next
    case (admitted i0)
    have "length (filter (\<lambda>x. L \<le> x) (entries (hist r) i))
        = length (filter (\<lambda>x. L \<le> x) (entries h i)) + (if i0 = i then 1 else 0)"
      using admitted(3) now(1) by (auto simp: entries_upd keep)
    moreover have "admissions fs (x # cs) h caches
        = (k, i0, now) # admissions fs cs (hist r) ?caches"
      using admitted(1,2) by (simp add: x admissions_Cons [where fs = fs and caches = caches, OF q w])
    ultimately show ?thesis using IH fin by simp
  qed
qed

subsection \<open>Evaluating the examples\<close>

lemmas example_defs =
  wrapper_def wrapper_body_def prune_def entries_def maxsize_def admissions_def
  final_history_def final_caches_def readings_def reading_def window_of_def in_window_def
  returns_def upd_def three_per_minute_def hundred_per_second_def alone_def two_limiters_def
  no_caches_def Let_def

section \<open>The claims\<close>

text \<open>
  C1. For every identity and every time \<open>t\<close>, the number of admitted calls (those for
  which the wrapper appended a timestamp and called the callback) whose timestamps lie
  in \<open>(t - window_seconds, t]\<close> never exceeds \<open>messages_per_window\<close>, for any sequence of
  calls with non-decreasing clock readings; the docstring of \<^verbatim>\<open>rate_limit\<close> calls
  \<open>messages_per_window\<close> the maximum number of messages allowed within the time window.
  The code breaks it: \<^verbatim>\<open>message_history\<close> is one dictionary for all decorated functions
  and each prunes it with its own window, so a decorated function with a shorter window
  throws away timestamps that one with a longer window still has to count. With a first
  function limited to three calls in sixty seconds and a second to a hundred calls in
  one second, one user calls the first at 0, 1 and 2, the second at 3 and the first
  again at 4: all five calls are admitted, and the first function has run four times
  within \<open>(-56, 4]\<close>.
\<close>
theorem window_capacity_violated:
  "admissions two_limiters
     [(0, upd 1 7, 1, 0), (0, upd 2 7, 2, 1), (0, upd 3 7, 3, 2), (1, upd 4 7, 4, 3),
      (0, upd 5 7, 5, 4)]
     Map.empty no_caches
   = [(0, 7, 0), (0, 7, 1), (0, 7, 2), (1, 7, 3), (0, 7, 4)]
   \<and> sorted (readings
        [(0, upd 1 7, 1, 0), (0, upd 2 7, 2, 1), (0, upd 3 7, 3, 2), (1, upd 4 7, 4, 3),
         (0, upd 5 7, 5, 4)])
   \<and> fst (two_limiters 0) = three_per_minute
   \<and> in_window three_per_minute 0 7 4
        (admissions two_limiters
          [(0, upd 1 7, 1, 0), (0, upd 2 7, 2, 1), (0, upd 3 7, 3, 2), (1, upd 4 7, 4, 3),
           (0, upd 5 7, 5, 4)]
          Map.empty no_caches)
      = 4
   \<and> messages_per_window three_per_minute = 3"
  by (simp add: example_defs)

text \<open>
  C2 says that the lower bound of the window is exclusive: a recorded timestamp equal
  to \<open>now - window_seconds\<close> would be removed by the prune step and would not count.
  The comprehension keeps \<open>t\<close> when \<open>current_time - t <= window_seconds\<close>, so such a
  timestamp stays. With the history \<open>[0, 1, 2]\<close> and a window of 60, a call at 60 keeps
  all three timestamps and is denied; without the timestamp 0 it is admitted.
\<close>
theorem lower_bound_exclusive_counterexample:
  "prune three_per_minute 60 [0, 1, 2] = [0, 1, 2]
   \<and> called (wrapper_body three_per_minute returns (upd 4 7) 4 60 [7 \<mapsto> [0, 1, 2]]) = False
   \<and> called (wrapper_body three_per_minute returns (upd 4 7) 4 60 [7 \<mapsto> [1, 2]]) = True"
  by (simp add: example_defs)

text \<open>
  C2, as the code has it: the lower bound is inclusive. Pruning keeps exactly the
  timestamps \<open>t\<close> with \<open>now - window_seconds \<le> t\<close>, in their order; a timestamp equal to
  \<open>now - window_seconds\<close> is kept, and the kept timestamps are the ones compared with
  \<open>messages_per_window\<close>.
\<close>
theorem lower_bound_inclusive:
  "prune p now ts = filter (\<lambda>t. now - real_of_int (window_seconds p) \<le> t) ts
   \<and> prune p now [now - real_of_int (window_seconds p)] = [now - real_of_int (window_seconds p)]
   \<and> (effective_user u = Some i \<longrightarrow>
        called (wrapper_body p f u c now h)
          = (int (length (filter (\<lambda>t. now - real_of_int (window_seconds p) \<le> t) (entries h i)))
               < messages_per_window p))"
proof -
  have a: "prune p now ts = filter (\<lambda>t. now - real_of_int (window_seconds p) \<le> t) ts" for ts
    unfolding prune_def by (intro filter_cong) auto
  have b: "prune p now [now - real_of_int (window_seconds p)] = [now - real_of_int (window_seconds p)]"
    by (simp add: prune_def)
  have c: "called (wrapper_body p f u c now h)
          = (int (length (filter (\<lambda>t. now - real_of_int (window_seconds p) \<le> t) (entries h i)))
               < messages_per_window p)" if "effective_user u = Some i"
    using that by (simp add: wrapper_body_Some a [symmetric])
  from a b c show ?thesis by blast
qed

theorem lower_bound_inclusive_witness:
  "effective_user (upd 4 7) = Some 7
   \<and> prune three_per_minute 60 [0] = [0]
   \<and> called (wrapper_body three_per_minute returns (upd 4 7) 4 60 [7 \<mapsto> [0, 1, 2]])
       = (int (length (filter (\<lambda>t. 60 - real_of_int (window_seconds three_per_minute) \<le> t)
            (entries [7 \<mapsto> [0, 1, 2]] 7))) < messages_per_window three_per_minute)"
proof -
  have h: "effective_user (upd 4 7) = Some 7" by (simp add: upd_def)
  have e: "prune three_per_minute 60 [0] = [0]" by (simp add: example_defs)
  from lower_bound_inclusive [of three_per_minute 60 "[]" "upd 4 7" 7 returns 4 "[7 \<mapsto> [0, 1, 2]]"] h e
  show ?thesis by blast
qed

text \<open>
  C3 says that \<^verbatim>\<open>rate_limit\<close> called with a non-positive capacity or window fails with
  \<open>InvalidConfiguration\<close>. The function has no check: it returns its decorator for any
  two integers.
\<close>
theorem invalid_configuration_counterexample:
  "rate_limit 0 60 \<noteq> Inl InvalidConfiguration
   \<and> rate_limit 3 0 \<noteq> Inl InvalidConfiguration
   \<and> rate_limit (- 1) (- 60) = Inr \<lparr>messages_per_window = - 1, window_seconds = - 60\<rparr>"
  by (simp add: rate_limit_def)

text \<open>
  C3, as the code has it: \<^verbatim>\<open>rate_limit\<close> never fails, whatever the two integers; and a
  limiter whose \<open>messages_per_window\<close> is not positive calls the callback for no call
  at all.
\<close>
theorem rate_limit_never_fails:
  "rate_limit m w = Inr \<lparr>messages_per_window = m, window_seconds = w\<rparr>
   \<and> (m \<le> 0 \<longrightarrow>
        \<not> called (fst (wrapper \<lparr>messages_per_window = m, window_seconds = w\<rparr> f u c now h cache)))"
proof -
  let ?p = "\<lparr>messages_per_window = m, window_seconds = w\<rparr>"
  obtain r cache' where w: "wrapper ?p f u c now h cache = (r, cache')"
    by (cases "wrapper ?p f u c now h cache")
  have "\<not> called r" if "m \<le> 0"
    using w
  proof (cases rule: wrapper_effect)
    case (admitted i)
    with that show ?thesis by simp
  qed simp_all
  then show ?thesis by (simp add: rate_limit_def w)
qed

theorem rate_limit_never_fails_witness:
  "(0::int) \<le> 0
   \<and> rate_limit 0 60 = Inr \<lparr>messages_per_window = 0, window_seconds = 60\<rparr>
   \<and> \<not> called (fst (wrapper \<lparr>messages_per_window = 0, window_seconds = 60\<rparr> returns (upd 1 7) 1 0 Map.empty []))"
  using rate_limit_never_fails [of 0 60 returns "upd 1 7" 1 0 Map.empty "[]"] by simp

text \<open>
  C4 says that the admission step returns a Boolean, true when it admits and false
  when it denies. The wrapper returns \<^verbatim>\<open>None\<close> on both paths: the bare \<^verbatim>\<open>return\<close> of
  the denial, and the end of the body after \<^verbatim>\<open>func(update, context)\<close>.
\<close>
theorem returns_boolean_counterexample:
  "called (wrapper_body three_per_minute returns (upd 1 7) 1 0 Map.empty) = True
   \<and> returned (wrapper_body three_per_minute returns (upd 1 7) 1 0 Map.empty) = Inr PyNone
   \<and> returned (wrapper_body three_per_minute returns (upd 1 7) 1 0 Map.empty) \<noteq> Inr (PyBool True)
   \<and> returned (fst (wrapper three_per_minute returns (upd 1 7) 1 0 Map.empty [])) = Inr PyNone
   \<and> called (wrapper_body three_per_minute returns (upd 4 7) 4 3 [7 \<mapsto> [0, 1, 2]]) = False
   \<and> returned (wrapper_body three_per_minute returns (upd 4 7) 4 3 [7 \<mapsto> [0, 1, 2]]) = Inr PyNone
   \<and> returned (wrapper_body three_per_minute returns (upd 4 7) 4 3 [7 \<mapsto> [0, 1, 2]]) \<noteq> Inr (PyBool False)
   \<and> returned (fst (wrapper three_per_minute returns (upd 4 7) 4 3 [7 \<mapsto> [0, 1, 2]] [])) = Inr PyNone"
  by (simp add: example_defs)

text \<open>
  C4, as the code has it: the wrapper never hands back a Boolean; the decision shows
  in its effects only. Let every call of a sequence, of whichever decorated function, be
  made at a time in \<open>[L, L + window_seconds]\<close> for the window of the function it calls.
  When the calls admitted for an identity in that sequence, through whichever decorated
  function, number \<open>messages_per_window\<close> of the decorated function \<open>k\<close> or more, a
  further call of \<open>k\<close> for that identity at a time in \<open>[L, L + window_seconds]\<close> of \<open>k\<close> is
  denied: the callback is not called and the wrapper returns \<^verbatim>\<open>None\<close>.
\<close>
theorem full_window_denies:
  assumes "\<forall>x \<in> set cs. L \<le> reading x \<and> reading x \<le> L + real_of_int (window_of fs (fst x))"
    and "L \<le> now" and "now \<le> L + real_of_int (window_of fs k)"
    and "fs k = (p, f)"
    and "messages_per_window p
          \<le> int (length (filter (\<lambda>e. fst (snd e) = i) (admissions fs cs h caches)))"
    and "effective_user u = Some i"
  shows "\<not> called (wrapper_body p f u c now (final_history fs cs h caches))
     \<and> \<not> called (fst (wrapper p f u c now (final_history fs cs h caches)
                        (final_caches fs cs h caches k)))
     \<and> returned (wrapper_body p f u c now (final_history fs cs h caches)) = Inr PyNone
     \<and> returned (wrapper_body p f u c now h') \<noteq> Inr (PyBool b)"
proof -
  let ?h = "final_history fs cs h caches"
  from assms(3,4) have now: "now \<le> L + real_of_int (window_seconds p)"
    by (simp add: window_of_def)
  have "filter (\<lambda>x. L \<le> x) (prune p now (entries ?h i)) = filter (\<lambda>x. L \<le> x) (entries ?h i)"
    unfolding prune_def filter_filter using assms(2) now by (intro filter_cong) auto
  then have "length (filter (\<lambda>x. L \<le> x) (entries ?h i)) \<le> length (prune p now (entries ?h i))"
    by (metis length_filter_le)
  with one_window_count [OF assms(1), of h caches i] assms(5)
  have full: "messages_per_window p \<le> int (length (prune p now (entries ?h i)))"
    by simp
  then have body: "wrapper_body p f u c now ?h
      = \<lparr>returned = Inr PyNone, called = False, hist = ?h(i \<mapsto> prune p now (entries ?h i))\<rparr>"
    using assms(6) by (simp add: wrapper_body_Some)
  obtain r cache' where w: "wrapper p f u c now ?h (final_caches fs cs h caches k) = (r, cache')"
    by (cases "wrapper p f u c now ?h (final_caches fs cs h caches k)")
  have memo: "\<not> called r"
    using w
  proof (cases rule: wrapper_effect)
    case (admitted j)
    with assms(6) full show ?thesis by simp
  qed simp_all
  have nb: "returned (wrapper_body p f u c now h') \<noteq> Inr (PyBool b)"
    by (simp add: wrapper_body_def Let_def split: option.splits)
  from body memo w nb show ?thesis by simp
qed

text \<open>Two decorated functions: the first admits the user at 0 and 1, the second at 1,
  each within its own window from 0 on; the user's entry then holds three timestamps, and
  the first function, limited to three, denies the user at 3.\<close>
theorem full_window_denies_witness:
  "readings [(0, upd 1 7, 1, 0), (0, upd 2 7, 2, 1), (1, upd 3 7, 3, 1)] = [0, 1, 1]
   \<and> window_of two_limiters 0 = 60 \<and> window_of two_limiters 1 = 1
   \<and> (0::real) \<le> 3 \<and> (3::real) \<le> 0 + real_of_int (window_of two_limiters 0)
   \<and> two_limiters 0 = (three_per_minute, returns)
   \<and> admissions two_limiters [(0, upd 1 7, 1, 0), (0, upd 2 7, 2, 1), (1, upd 3 7, 3, 1)]
        Map.empty no_caches
      = [(0, 7, 0), (0, 7, 1), (1, 7, 1)]
   \<and> messages_per_window three_per_minute
       \<le> int (length (filter (\<lambda>e. fst (snd e) = 7)
           (admissions two_limiters [(0, upd 1 7, 1, 0), (0, upd 2 7, 2, 1), (1, upd 3 7, 3, 1)]
              Map.empty no_caches)))
   \<and> effective_user (upd 4 7) = Some 7
   \<and> \<not> called (fst (wrapper three_per_minute returns (upd 4 7) 4 3
         (final_history two_limiters [(0, upd 1 7, 1, 0), (0, upd 2 7, 2, 1), (1, upd 3 7, 3, 1)]
            Map.empty no_caches)
         (final_caches two_limiters [(0, upd 1 7, 1, 0), (0, upd 2 7, 2, 1), (1, upd 3 7, 3, 1)]
            Map.empty no_caches 0)))"
proof -
  let ?cs = "[(0, upd 1 7, 1, 0), (0, upd 2 7, 2, 1), (1, upd 3 7, 3, 1)]"
  have h1: "\<forall>x \<in> set ?cs. 0 \<le> reading x
      \<and> reading x \<le> 0 + real_of_int (window_of two_limiters (fst x))"
    by (simp add: reading_def window_of_def two_limiters_def three_per_minute_def
        hundred_per_second_def)
  have h2: "(0::real) \<le> 3" by simp
  have h3: "(3::real) \<le> 0 + real_of_int (window_of two_limiters 0)"
    by (simp add: window_of_def two_limiters_def three_per_minute_def)
  have h4: "two_limiters 0 = (three_per_minute, returns)"
    by (simp add: two_limiters_def)
  have a: "admissions two_limiters ?cs Map.empty no_caches = [(0, 7, 0), (0, 7, 1), (1, 7, 1)]"
    by (simp add: example_defs)
  have h5: "messages_per_window three_per_minute
       \<le> int (length (filter (\<lambda>e. fst (snd e) = 7) (admissions two_limiters ?cs Map.empty no_caches)))"
    unfolding a by (simp add: three_per_minute_def)
  have h6: "effective_user (upd 4 7) = Some 7" by (simp add: upd_def)
  have r: "readings ?cs = [0, 1, 1]"
    and w0: "window_of two_limiters 0 = 60" and w1: "window_of two_limiters 1 = 1"
    by (simp_all add: readings_def reading_def window_of_def two_limiters_def
        three_per_minute_def hundred_per_second_def)
  from full_window_denies [OF h1 h2 h3 h4 h5 h6, of 4] r w0 w1 h2 h3 h4 a h5 h6
  show ?thesis by blast
qed

text \<open>
  C5. Denial is atomic and idempotent: a denied call records no timestamp and leaves
  the identity's history as the prune step made it; a second call for the same identity
  at the same instant is denied again, returns the same value and changes nothing, be it
  the body that runs or the memoized wrapper with any cache.
\<close>
theorem denial_idempotent:
  assumes "effective_user u = Some i" and "effective_user u' = Some i"
    and "\<not> called (wrapper_body p f u c now h)"
  shows "hist (wrapper_body p f u c now h) = h(i \<mapsto> prune p now (entries h i))
     \<and> \<not> called (wrapper_body p f' u' c' now (hist (wrapper_body p f u c now h)))
     \<and> returned (wrapper_body p f' u' c' now (hist (wrapper_body p f u c now h)))
         = returned (wrapper_body p f u c now h)
     \<and> hist (wrapper_body p f' u' c' now (hist (wrapper_body p f u c now h)))
         = hist (wrapper_body p f u c now h)
     \<and> \<not> called (fst (wrapper p f' u' c' now (hist (wrapper_body p f u c now h)) cache))
     \<and> hist (fst (wrapper p f' u' c' now (hist (wrapper_body p f u c now h)) cache))
         = hist (wrapper_body p f u c now h)"
proof -
  let ?r = "wrapper_body p f u c now h"
  let ?ts = "prune p now (entries h i)"
  from assms(1,3) have full: "messages_per_window p \<le> int (length ?ts)"
    by (simp add: wrapper_body_Some split: if_splits)
  then have r: "?r = \<lparr>returned = Inr PyNone, called = False, hist = h(i \<mapsto> ?ts)\<rparr>"
    using assms(1) by (simp add: wrapper_body_Some)
  have again: "wrapper_body p f' u' c' now (hist ?r) = ?r"
    using assms(2) full by (simp add: r wrapper_body_Some entries_upd prune_idem)
  have memo: "\<not> called (fst (wrapper p f' u' c' now (hist ?r) cache))
      \<and> hist (fst (wrapper p f' u' c' now (hist ?r) cache)) = hist ?r"
  proof (cases "map_of cache (u', c')")
    case None
    then show ?thesis using again assms(3) by (simp add: wrapper_miss)
  next
    case (Some v)
    then show ?thesis by (simp add: wrapper_hit)
  qed
  from r again memo assms(3) show ?thesis by simp
qed

theorem denial_idempotent_witness:
  "effective_user (upd 4 7) = Some 7 \<and> effective_user (upd 5 7) = Some 7
   \<and> \<not> called (wrapper_body three_per_minute returns (upd 4 7) 4 70 [7 \<mapsto> [0, 10, 20, 30]])
   \<and> hist (wrapper_body three_per_minute returns (upd 4 7) 4 70 [7 \<mapsto> [0, 10, 20, 30]])
       = [7 \<mapsto> [10, 20, 30]]
   \<and> \<not> called (wrapper_body three_per_minute returns (upd 5 7) 5 70
         (hist (wrapper_body three_per_minute returns (upd 4 7) 4 70 [7 \<mapsto> [0, 10, 20, 30]])))"
proof -
  have h1: "effective_user (upd 4 7) = Some 7" and h2: "effective_user (upd 5 7) = Some 7"
    by (simp_all add: upd_def)
  have h3: "\<not> called (wrapper_body three_per_minute returns (upd 4 7) 4 70 [7 \<mapsto> [0, 10, 20, 30]])"
    by (simp add: example_defs)
  have h4: "hist (wrapper_body three_per_minute returns (upd 4 7) 4 70 [7 \<mapsto> [0, 10, 20, 30]])
       = [7 \<mapsto> [10, 20, 30]]"
    by (simp add: example_defs)
  from denial_idempotent [OF h1 h2 h3, of returns 5 "[]"] h1 h2 h3 h4 show ?thesis by blast
qed




text \<open>
  C7. Identity independence: a call for identity \<open>a\<close> leaves the entry of every other
  identity \<open>b\<close> as it was, and what the call decides, returns and stores for \<open>a\<close> is the
  same in any two histories that agree on \<open>a\<close>.
\<close>
theorem identity_independence:
  assumes "effective_user u = Some a" and "b \<noteq> a" and "h' a = h a"
  shows "hist (wrapper_body p f u c now h) b = h b
     \<and> hist (fst (wrapper p f u c now h cache)) b = h b
     \<and> called (wrapper_body p f u c now h') = called (wrapper_body p f u c now h)
     \<and> returned (wrapper_body p f u c now h') = returned (wrapper_body p f u c now h)
     \<and> hist (wrapper_body p f u c now h') a = hist (wrapper_body p f u c now h) a
     \<and> called (fst (wrapper p f u c now h' cache)) = called (fst (wrapper p f u c now h cache))"
proof -
  from assms(3) have e: "entries h' a = entries h a" by (simp add: entries_def)
  have body: "hist (wrapper_body p f u c now h) b = h b"
    using assms(1,2) by (simp add: wrapper_body_Some)
  have same: "called (wrapper_body p f u c now h') = called (wrapper_body p f u c now h)
     \<and> returned (wrapper_body p f u c now h') = returned (wrapper_body p f u c now h)
     \<and> hist (wrapper_body p f u c now h') a = hist (wrapper_body p f u c now h) a"
    using assms(1) by (simp add: wrapper_body_Some e)
  have memo: "hist (fst (wrapper p f u c now h cache)) b = h b
     \<and> called (fst (wrapper p f u c now h' cache)) = called (fst (wrapper p f u c now h cache))"
  proof (cases "map_of cache (u, c)")
    case None
    then show ?thesis using body same by (simp add: wrapper_miss)
  next
    case (Some v)
    then show ?thesis by (simp add: wrapper_hit)
  qed
  from body same memo show ?thesis by simp
qed

theorem identity_independence_witness:
  "effective_user (upd 1 7) = Some 7 \<and> (8::int) \<noteq> 7
   \<and> [(7::int) \<mapsto> [0::real], 8 \<mapsto> [0, 1, 2]] 7 = [(7::int) \<mapsto> [0::real]] 7
   \<and> hist (wrapper_body three_per_minute returns (upd 1 7) 1 3 [7 \<mapsto> [0]]) 8
       = [(7::int) \<mapsto> [0::real]] 8
   \<and> called (wrapper_body three_per_minute returns (upd 1 7) 1 3 [7 \<mapsto> [0], 8 \<mapsto> [0, 1, 2]])
       = called (wrapper_body three_per_minute returns (upd 1 7) 1 3 [7 \<mapsto> [0]])"
proof -
  have h1: "effective_user (upd 1 7) = Some 7" by (simp add: upd_def)
  have h2: "(8::int) \<noteq> 7" by simp
  have h3: "[(7::int) \<mapsto> [0::real], 8 \<mapsto> [0, 1, 2]] 7 = [(7::int) \<mapsto> [0::real]] 7" by simp
  from identity_independence [where u = "upd 1 7" and a = 7 and b = 8
      and h' = "[7 \<mapsto> [0], 8 \<mapsto> [0, 1, 2]]" and h = "[7 \<mapsto> [0]]"
      and p = three_per_minute and f = returns and c = 1 and now = 3 and cache = "[]", OF h1 h2 h3]
    h1 h2 h3
  show ?thesis by blast
qed

text \<open>
  C8. All decorated functions share \<^verbatim>\<open>message_history\<close>, keyed by user id alone. An
  admission through one decorated function (policy \<open>p1\<close>) appends its timestamp to the
  user's entry; a call of any other decorated function (policy \<open>p2\<close>) for that user is
  decided on that same entry, whatever the two policies are. While the timestamp is
  within the window of \<open>p2\<close> it is counted, so a \<open>p2\<close> with capacity one denies a user
  it has never seen.
\<close>
theorem shared_history:
  assumes "effective_user u1 = Some i" and "effective_user u2 = Some i"
    and "called (wrapper_body p1 f1 u1 c1 t1 h)"
  shows "entries (hist (wrapper_body p1 f1 u1 c1 t1 h)) i = prune p1 t1 (entries h i) @ [t1]
     \<and> called (wrapper_body p2 f2 u2 c2 t2 (hist (wrapper_body p1 f1 u1 c1 t1 h)))
         = (int (length (prune p2 t2 (prune p1 t1 (entries h i) @ [t1]))) < messages_per_window p2)
     \<and> (t2 - t1 \<le> real_of_int (window_seconds p2) \<longrightarrow>
          t1 \<in> set (entries (hist (wrapper_body p2 f2 u2 c2 t2 (hist (wrapper_body p1 f1 u1 c1 t1 h)))) i)
          \<and> (messages_per_window p2 \<le> 1 \<longrightarrow>
               \<not> called (wrapper_body p2 f2 u2 c2 t2 (hist (wrapper_body p1 f1 u1 c1 t1 h)))))"
proof -
  let ?r1 = "wrapper_body p1 f1 u1 c1 t1 h"
  let ?ts = "prune p1 t1 (entries h i) @ [t1]"
  from assms(1,3) have e: "entries (hist ?r1) i = ?ts"
    by (simp add: wrapper_body_Some entries_upd split: if_splits)
  have dec: "called (wrapper_body p2 f2 u2 c2 t2 (hist ?r1))
         = (int (length (prune p2 t2 ?ts)) < messages_per_window p2)"
    using assms(2) by (simp add: wrapper_body_Some e)
  have counted: "t1 \<in> set (entries (hist (wrapper_body p2 f2 u2 c2 t2 (hist ?r1))) i)
          \<and> (messages_per_window p2 \<le> 1 \<longrightarrow> \<not> called (wrapper_body p2 f2 u2 c2 t2 (hist ?r1)))"
    if "t2 - t1 \<le> real_of_int (window_seconds p2)"
  proof -
    from that have in2: "t1 \<in> set (prune p2 t2 ?ts)" by (simp add: prune_def)
    then have "0 < length (prune p2 t2 ?ts)" by (rule length_pos_if_in_set)
    then have "1 \<le> int (length (prune p2 t2 ?ts))" by linarith
    then have d: "messages_per_window p2 \<le> 1 \<longrightarrow> \<not> called (wrapper_body p2 f2 u2 c2 t2 (hist ?r1))"
      unfolding dec by linarith
    have "t1 \<in> set (entries (hist (wrapper_body p2 f2 u2 c2 t2 (hist ?r1))) i)"
      using assms(2) in2 by (auto simp: wrapper_body_Some e entries_upd)
    with d show ?thesis by simp
  qed
  from e dec counted show ?thesis by blast
qed

theorem shared_history_witness:
  "effective_user (upd 1 7) = Some 7 \<and> effective_user (upd 2 7) = Some 7
   \<and> called (wrapper_body \<lparr>messages_per_window = 5, window_seconds = 60\<rparr> returns (upd 1 7) 1 0 Map.empty)
   \<and> (1::real) - 0 \<le> real_of_int (window_seconds \<lparr>messages_per_window = 1, window_seconds = 10\<rparr>)
   \<and> messages_per_window \<lparr>messages_per_window = 1, window_seconds = 10\<rparr> \<le> 1
   \<and> \<not> called (wrapper_body \<lparr>messages_per_window = 1, window_seconds = 10\<rparr> returns (upd 2 7) 2 1
         (hist (wrapper_body \<lparr>messages_per_window = 5, window_seconds = 60\<rparr> returns (upd 1 7) 1 0 Map.empty)))
   \<and> called (wrapper_body \<lparr>messages_per_window = 1, window_seconds = 10\<rparr> returns (upd 2 7) 2 1 Map.empty)"
proof -
  let ?p1 = "\<lparr>messages_per_window = 5, window_seconds = 60\<rparr>"
  let ?p2 = "\<lparr>messages_per_window = 1, window_seconds = 10\<rparr>"
  have h1: "effective_user (upd 1 7) = Some 7" and h2: "effective_user (upd 2 7) = Some 7"
    by (simp_all add: upd_def)
  have h3: "called (wrapper_body ?p1 returns (upd 1 7) 1 0 Map.empty)"
    by (simp add: example_defs)
  have h4: "(1::real) - 0 \<le> real_of_int (window_seconds ?p2)" by simp
  have h5: "messages_per_window ?p2 \<le> 1" by simp
  have fresh: "called (wrapper_body ?p2 returns (upd 2 7) 2 1 Map.empty)"
    by (simp add: example_defs)
  from shared_history [OF h1 h2 h3, of ?p2 returns 2 1] h1 h2 h3 h4 h5 fresh
  show ?thesis by blast
qed

text \<open>
  C9. The wrapper is memoized by an \<^verbatim>\<open>lru_cache\<close> of 1024 entries keyed on the pair
  \<open>(update, context)\<close>. A call whose pair is cached returns the cached value and leaves
  the history as it is: no pruning, no timestamp, no call of the callback. A call that
  returns caches its pair, so that calling again with an equal pair, at any time and
  with any history, is such a hit. The cache never grows beyond \<open>maxsize\<close>.
\<close>
theorem lru_cache_hit:
  "(map_of cache (u, c) = Some v \<longrightarrow>
      fst (wrapper p f u c now h cache) = \<lparr>returned = Inr v, called = False, hist = h\<rparr>)
   \<and> (wrapper p f u c now h cache = (r, cache') \<and> returned r = Inr v \<longrightarrow>
        map_of cache' (u, c) = Some v
        \<and> wrapper p f u c now' h' cache' = (\<lparr>returned = Inr v, called = False, hist = h'\<rparr>, cache'))
   \<and> (length cache \<le> maxsize \<longrightarrow> length (snd (wrapper p f u c now h cache)) \<le> maxsize)
   \<and> maxsize = 1024"
proof -
  have a: "fst (wrapper p f u c now h cache) = \<lparr>returned = Inr v, called = False, hist = h\<rparr>"
    if "map_of cache (u, c) = Some v"
    using that by (simp add: wrapper_hit)
  have b: "map_of cache' (u, c) = Some v
        \<and> wrapper p f u c now' h' cache' = (\<lparr>returned = Inr v, called = False, hist = h'\<rparr>, cache')"
    if "wrapper p f u c now h cache = (r, cache')" and "returned r = Inr v"
  proof -
    from wrapper_caches [OF that] obtain rest
      where rest: "cache' = ((u, c), v) # rest" "map_of rest (u, c) = None" by blast
    then have m: "map_of cache' (u, c) = Some v" by simp
    have "filter (\<lambda>e. fst e \<noteq> (u, c)) cache' = rest"
      using rest by (simp add: not_cached_filter)
    with wrapper_hit [OF m, of p f now' h'] rest(1) m show ?thesis by simp
  qed
  from a b wrapper_cache_size [of cache p f u c now h] show ?thesis
    by (simp add: maxsize_def)
qed

theorem lru_cache_hit_witness:
  "map_of [((upd 1 7, 1), PyNone)] (upd 1 7, 1) = Some PyNone
   \<and> fst (wrapper three_per_minute returns (upd 1 7) 1 5 [7 \<mapsto> [0]] [((upd 1 7, 1), PyNone)])
       = \<lparr>returned = Inr PyNone, called = False, hist = [7 \<mapsto> [0]]\<rparr>
   \<and> wrapper three_per_minute returns (upd 1 7) 1 0 Map.empty []
       = (\<lparr>returned = Inr PyNone, called = True, hist = [7 \<mapsto> [0]]\<rparr>, [((upd 1 7, 1), PyNone)])
   \<and> returned \<lparr>returned = Inr PyNone, called = True, hist = [7 \<mapsto> [0]]\<rparr> = Inr PyNone
   \<and> wrapper three_per_minute returns (upd 1 7) 1 5 [7 \<mapsto> [0]] [((upd 1 7, 1), PyNone)]
       = (\<lparr>returned = Inr PyNone, called = False, hist = [7 \<mapsto> [0]]\<rparr>, [((upd 1 7, 1), PyNone)])
   \<and> length ([] :: lru) \<le> maxsize
   \<and> length (snd (wrapper three_per_minute returns (upd 1 7) 1 0 Map.empty [])) \<le> maxsize"
proof -
  let ?r = "\<lparr>returned = Inr PyNone, called = True, hist = [7 \<mapsto> [0]]\<rparr>"
  let ?cache = "[((upd 1 7, 1), PyNone)]"
  have h1: "map_of ?cache (upd 1 7, 1) = Some PyNone" by simp
  have h2: "wrapper three_per_minute returns (upd 1 7) 1 0 Map.empty [] = (?r, ?cache)"
    by (simp add: example_defs)
  have h3: "returned ?r = Inr PyNone" by simp
  have h4: "length ([] :: lru) \<le> maxsize" by simp
  from lru_cache_hit [where cache = "[]" and u = "upd 1 7" and c = 1 and v = PyNone
      and p = three_per_minute and f = returns and now = 0 and h = Map.empty
      and r = ?r and cache' = ?cache and now' = 5 and h' = "[7 \<mapsto> [0]]"] h2 h3 h4
  have a: "wrapper three_per_minute returns (upd 1 7) 1 5 [7 \<mapsto> [0]] ?cache
       = (\<lparr>returned = Inr PyNone, called = False, hist = [7 \<mapsto> [0]]\<rparr>, ?cache)"
    and b: "length (snd (wrapper three_per_minute returns (upd 1 7) 1 0 Map.empty [])) \<le> maxsize"
    by blast+
  from a have c: "fst (wrapper three_per_minute returns (upd 1 7) 1 5 [7 \<mapsto> [0]] ?cache)
       = \<lparr>returned = Inr PyNone, called = False, hist = [7 \<mapsto> [0]]\<rparr>"
    by simp
  from h1 h2 h3 h4 a b c show ?thesis by blast
qed

end
